theory Spec2Isabelle
  imports Complex_Main "HOL-Library.Sublist" "HOL-Library.Multiset"
begin

text \<open>
  A shallow embedding of the generation-to-merge pipeline: the routing policy
  \<^verbatim>\<open>decideRoute\<close>, the output codec \<^verbatim>\<open>parseOutputToJson\<close>, the orchestrator
  \<^verbatim>\<open>POST\<close> of \<^verbatim>\<open>app/api/gen/route.ts\<close>, the diff engine (\<^verbatim>\<open>unifiedDiff\<close>,
  \<^verbatim>\<open>applyUnifiedDiff\<close>, \<^verbatim>\<open>applyUnifiedDiffClient\<close>), the files store with
  \<^verbatim>\<open>applyStagedChanges\<close>, and the recall query (\<^verbatim>\<open>cosineSimilarity\<close> and the
  post-processing of the \<^verbatim>\<open>similar\<close> route).

  A JavaScript string is a \<^typ>\<open>string\<close>, read as its sequence of code units below 256.
  A JavaScript number that holds a similarity or a coordinate is a \<^typ>\<open>real\<close>: rounding,
  infinities and NaN are outside the model. A number that counts is a \<^typ>\<open>nat\<close>, the
  \<^verbatim>\<open>limit\<close> query parameter an \<^typ>\<open>int\<close>.
\<close>

section \<open>Strings\<close>

definition newline :: char where
  "newline = CHR 0x0A"

definition dquote :: char where
  "dquote = CHR 0x22"

text \<open>\<^verbatim>\<open>s.split('\n')\<close>: one more piece than there are newlines, so never empty.\<close>

fun split_nl :: "string \<Rightarrow> string list" where
  "split_nl [] = [[]]"
| "split_nl (c # cs) =
     (if c = newline then [] # split_nl cs
      else (let r = split_nl cs in (c # hd r) # tl r))"

text \<open>\<^verbatim>\<open>lines.join('\n')\<close>; the empty array joins to the empty string.\<close>

fun join_nl :: "string list \<Rightarrow> string" where
  "join_nl [] = []"
| "join_nl [l] = l"
| "join_nl (l # l' # ls) = l @ newline # join_nl (l' # ls)"

text \<open>\<^verbatim>\<open>s.startsWith(p)\<close> is \<^const>\<open>prefix\<close>; \<^verbatim>\<open>s.slice(1)\<close> is \<^term>\<open>drop 1 s\<close>.\<close>

text \<open>\<^verbatim>\<open>s.includes(pat)\<close>.\<close>

fun str_includes :: "string \<Rightarrow> string \<Rightarrow> bool" where
  "str_includes [] pat = (pat = [])"
| "str_includes (c # cs) pat = (prefix pat (c # cs) \<or> str_includes cs pat)"

text \<open>
  \<^verbatim>\<open>s.toLowerCase()\<close> on code units below 256: the letters A to Z and the Latin-1
  capitals (0xC0 to 0xDE, the multiplication sign 0xD7 apart) move up by 32.
\<close>

definition lower_char :: "char \<Rightarrow> char" where
  "lower_char c =
     (let n = (of_char c :: nat) in
      if (65 \<le> n \<and> n \<le> 90) \<or> (192 \<le> n \<and> n \<le> 222 \<and> n \<noteq> 215)
      then char_of (n + 32) else c)"

definition toLowerCase :: "string \<Rightarrow> string" where
  "toLowerCase s = map lower_char s"

text \<open>
  \<^verbatim>\<open>s.trim()\<close> strips white space and line terminators from both ends; below 256
  these are tab, line feed, vertical tab, form feed, carriage return, space and the
  no-break space.
\<close>

definition is_ws :: "char \<Rightarrow> bool" where
  "is_ws c = ((of_char c :: nat) \<in> {9, 10, 11, 12, 13, 32, 160})"

definition trim :: "string \<Rightarrow> string" where
  "trim s = rev (dropWhile is_ws (rev (dropWhile is_ws s)))"

text \<open>
  The first occurrence of \<open>pat\<close> in a string: the text before it and the text after it.
\<close>

fun find_sub :: "string \<Rightarrow> string \<Rightarrow> (string \<times> string) option" where
  "find_sub pat [] = (if pat = [] then Some ([], []) else None)"
| "find_sub pat (c # cs) =
     (if prefix pat (c # cs) then Some ([], drop (length pat) (c # cs))
      else (case find_sub pat cs of
              None \<Rightarrow> None
            | Some (u, v) \<Rightarrow> Some (c # u, v)))"

section \<open>Routing policy\<close>

datatype route = R_grok | R_claude | R_dual

text \<open>
  \<^verbatim>\<open>decideRoute(prompt, vibe?, mode?)\<close>. The request body is untyped JSON and
  \<^verbatim>\<open>vibe as Vibe\<close> is only a cast, so \<open>vibe\<close> and \<open>mode\<close> are any string or undefined.
\<close>

definition decideRoute :: "string \<Rightarrow> string option \<Rightarrow> string option \<Rightarrow> route" where
  "decideRoute prompt vibe mode =
     (let lower = toLowerCase prompt in
      if mode = Some ''dual'' \<or> vibe = Some ''dual'' then R_dual
      else if vibe = Some ''scrappy'' then R_grok
      else if vibe = Some ''enterprise'' then R_claude
      else if str_includes lower ''build'' \<or> str_includes lower ''creative'' then R_grok
      else if str_includes lower ''refine'' \<or> str_includes lower ''harden'' then R_claude
      else R_grok)"

section \<open>Output protocol codec\<close>

datatype model = Grok | Claude

record file_out =
  fo_path :: string
  fo_content :: string
  fo_diff :: bool
  fo_modelUsed :: model

record parsed_output =
  out_files :: "file_out list"
  out_explanation :: string
  out_tests :: string

definition file_open :: string where
  "file_open = ''<file path='' @ [dquote]"

definition file_close :: string where
  "file_close = ''</file>''"

text \<open>
  One attempt of \<^verbatim>\<open>/<file path="([^"]+)">([\s\S]*?)<\/file>/\<close> at the head of a
  string: the opening literal, the longest run of characters other than the double quote
  (at least one; a shorter run cannot be followed by a double quote), the literal
  \<^verbatim>\<open>">\<close>, then the shortest body that the closing tag follows. The result is the two
  groups and the text after the match.
\<close>

definition match_file_at :: "string \<Rightarrow> (string \<times> string \<times> string) option" where
  "match_file_at s =
     (if prefix file_open s then
        (let s1 = drop (length file_open) s;
             p = takeWhile (\<lambda>c. c \<noteq> dquote) s1;
             s2 = dropWhile (\<lambda>c. c \<noteq> dquote) s1
         in if p \<noteq> [] \<and> prefix [dquote, CHR ''>''] s2 then
              (case find_sub file_close (drop 2 s2) of
                 None \<Rightarrow> None
               | Some (body, rest) \<Rightarrow> Some (p, body, rest))
            else None)
      else None)"

lemma find_sub_decomp:
  "find_sub pat s = Some (u, v) \<Longrightarrow> s = u @ pat @ v"
proof (induction s arbitrary: u)
  case Nil
  then show ?case by (simp split: if_splits)
next
  case (Cons c cs)
  show ?case
  proof (cases "prefix pat (c # cs)")
    case True
    with Cons.prems have "u = []" and "v = drop (length pat) (c # cs)"
      by simp_all
    moreover from True have "c # cs = pat @ drop (length pat) (c # cs)"
      by (metis append_eq_conv_conj prefix_def)
    ultimately show ?thesis by simp
  next
    case False
    with Cons.prems obtain u' where "find_sub pat cs = Some (u', v)" "u = c # u'"
      by (auto split: option.splits)
    with Cons.IH show ?thesis by simp
  qed
qed

lemma match_file_at_decomp:
  assumes "match_file_at s = Some (p, body, rest)"
  shows "s = file_open @ p @ [dquote, CHR ''>''] @ body @ file_close @ rest"
    and "p \<noteq> []" and "dquote \<notin> set p"
proof -
  let ?s1 = "drop (length file_open) s"
  let ?s2 = "dropWhile (\<lambda>c. c \<noteq> dquote) ?s1"
  from assms have pre: "prefix file_open s"
    by (simp add: match_file_at_def split: if_splits)
  from assms pre have p: "p = takeWhile (\<lambda>c. c \<noteq> dquote) ?s1"
    and ne: "p \<noteq> []" and q: "prefix [dquote, CHR ''>''] ?s2"
    and f: "find_sub file_close (drop 2 ?s2) = Some (body, rest)"
    by (auto simp: match_file_at_def Let_def split: if_splits option.splits)
  from pre have s: "s = file_open @ ?s1"
    by (auto simp: prefix_def)
  have s1: "?s1 = p @ ?s2" by (simp add: p)
  from q obtain w where w: "?s2 = [dquote, CHR ''>''] @ w"
    by (auto simp: prefix_def)
  then have "drop 2 ?s2 = w" by simp
  with f have "w = body @ file_close @ rest"
    by (simp add: find_sub_decomp)
  with s s1 w show "s = file_open @ p @ [dquote, CHR ''>''] @ body @ file_close @ rest"
    by metis
  show "p \<noteq> []" by (rule ne)
  show "dquote \<notin> set p"
    unfolding p by (auto dest: set_takeWhileD)
qed

lemma match_file_at_shorter:
  "match_file_at s = Some (p, body, rest) \<Longrightarrow> length rest < length s"
  by (drule match_file_at_decomp(1)) (simp add: file_open_def)

text \<open>
  The \<^verbatim>\<open>while ((m = fileRegex.exec(raw)) !== null)\<close> loop of a global regular
  expression: the leftmost position where the pattern matches, then on from the end of
  that match. The result lists the two groups of every match.
\<close>

function scan_files :: "string \<Rightarrow> (string \<times> string) list" where
  "scan_files [] = []"
| "scan_files (c # cs) =
     (case match_file_at (c # cs) of
        None \<Rightarrow> scan_files cs
      | Some (p, body, rest) \<Rightarrow> (p, body) # scan_files rest)"
  by pat_completeness auto
termination
  by (relation "measure length") (auto dest: match_file_at_shorter)

text \<open>
  \<^verbatim>\<open>raw.match(/<tag>([\s\S]*?)<\/tag>/)?.[1] || ''\<close>: the first opening tag that a
  closing tag follows is the first opening tag, and the lazy body ends at the first
  closing tag after it. No match gives the empty string.
\<close>

definition tag_body :: "string \<Rightarrow> string \<Rightarrow> string" where
  "tag_body tag raw =
     (case find_sub (''<'' @ tag @ ''>'') raw of
        None \<Rightarrow> []
      | Some (u, v) \<Rightarrow>
          (case find_sub (''</'' @ tag @ ''>'') v of
             None \<Rightarrow> []
           | Some (body, w) \<Rightarrow> body))"

definition parseOutputToJson :: "string \<Rightarrow> model \<Rightarrow> parsed_output" where
  "parseOutputToJson raw used =
     (let files0 = map (\<lambda>(p, body).
                      \<lparr>fo_path = p, fo_content = trim body, fo_diff = False,
                       fo_modelUsed = used\<rparr>) (scan_files raw);
          files1 = (if length files0 = 0 \<and> length (trim raw) > 0
                    then files0 @ [\<lparr>fo_path = ''src/App.jsx'', fo_content = trim raw,
                                    fo_diff = False, fo_modelUsed = used\<rparr>]
                    else files0);
          explanation = trim (tag_body ''explanation'' raw);
          tests = trim (tag_body ''tests'' raw)
      in \<lparr>out_files = files1, out_explanation = explanation, out_tests = tests\<rparr>)"

section \<open>Generation orchestrator\<close>

text \<open>
  The handler \<^verbatim>\<open>POST\<close>. The two model calls are the environment: \<open>grokReply\<close> and
  \<open>claudeReply\<close> are the texts that \<^verbatim>\<open>callGrokCollect\<close> and \<^verbatim>\<open>callClaudeCollect\<close>
  return, \<open>None\<close> when the call throws. The prompts sent to the models do not reach the
  response except through these replies. An error response is its HTTP status.
\<close>

definition annotate :: "(string \<rightharpoonup> string) option \<Rightarrow> file_out list \<Rightarrow> file_out list" where
  "annotate baseFiles fs =
     (case baseFiles of
        None \<Rightarrow> fs
      | Some base \<Rightarrow>
          map (\<lambda>f. let before = (case base (fo_path f) of Some b \<Rightarrow> b | None \<Rightarrow> []);
                        after = fo_content f;
                        differs = (before \<noteq> after)
                    in f\<lparr>fo_diff := differs\<rparr>) fs)"

definition respond :: "(string \<rightharpoonup> string) option \<Rightarrow> parsed_output \<Rightarrow> nat + parsed_output" where
  "respond baseFiles parsed = Inr (parsed\<lparr>out_files := annotate baseFiles (out_files parsed)\<rparr>)"

definition generate ::
  "route \<Rightarrow> string option \<Rightarrow> string option \<Rightarrow> (string \<rightharpoonup> string) option
     \<Rightarrow> nat + parsed_output" where
  "generate r grokReply claudeReply baseFiles =
     (case r of
        R_grok \<Rightarrow>
          (case grokReply of
             None \<Rightarrow> Inl 500
           | Some grokText \<Rightarrow> respond baseFiles (parseOutputToJson grokText Grok))
      | R_claude \<Rightarrow>
          (case claudeReply of
             None \<Rightarrow> Inl 500
           | Some finalText \<Rightarrow> respond baseFiles (parseOutputToJson finalText Claude))
      | R_dual \<Rightarrow>
          (case grokReply of
             None \<Rightarrow> Inl 500
           | Some grokText \<Rightarrow>
               (case claudeReply of
                  None \<Rightarrow> Inl 500
                | Some finalText \<Rightarrow>
                    (let parsedClaude = parseOutputToJson finalText Claude in
                     if length (out_files parsedClaude) > 0 then respond baseFiles parsedClaude
                     else respond baseFiles (parseOutputToJson grokText Grok)))))"

text \<open>A missing, non-string or empty prompt is answered with status 400.\<close>

definition POST ::
  "string option \<Rightarrow> string option \<Rightarrow> string option \<Rightarrow> string option \<Rightarrow> string option
     \<Rightarrow> (string \<rightharpoonup> string) option \<Rightarrow> nat + parsed_output" where
  "POST prompt vibe mode grokReply claudeReply baseFiles =
     (case prompt of
        None \<Rightarrow> Inl 400
      | Some p \<Rightarrow>
          (if p = [] then Inl 400
           else generate (decideRoute p vibe mode) grokReply claudeReply baseFiles))"

subsection \<open>The chained generator of the integrate route\<close>

text \<open>
  \<^verbatim>\<open>dualRouterGenerate\<close> and \<^verbatim>\<open>parseOutput\<close> run the same fast-then-refine chain
  for the integrate route. The cost monitor counts calls against a limit; the two model
  calls are again the environment, \<open>None\<close> when the call throws.
\<close>

record cost_monitor =
  cm_apiCalls :: nat
  cm_limit :: nat

definition trackCall :: "cost_monitor \<Rightarrow> cost_monitor" where
  "trackCall cm = cm\<lparr>cm_apiCalls := cm_apiCalls cm + 1\<rparr>"

definition checkLimit :: "cost_monitor \<Rightarrow> bool" where
  "checkLimit cm = (if cm_apiCalls cm \<ge> cm_limit cm then False else True)"

record integrate_file =
  if_path :: string
  if_content :: string

record integrate_output =
  io_files :: "integrate_file list"
  io_explanation :: string
  io_tests :: string

datatype integrate_error = Limit_exceeded | Grok_failed

text \<open>\<^verbatim>\<open>parseOutput\<close> has the same three patterns and no fallback file.\<close>

definition parseOutput :: "string \<Rightarrow> model \<Rightarrow> integrate_output" where
  "parseOutput raw used =
     \<lparr>io_files = map (\<lambda>(p, body). \<lparr>if_path = p, if_content = trim body\<rparr>) (scan_files raw),
      io_explanation = trim (tag_body ''explanation'' raw),
      io_tests = trim (tag_body ''tests'' raw)\<rparr>"

definition dualRouterGenerate ::
  "cost_monitor \<Rightarrow> string option \<Rightarrow> string option
     \<Rightarrow> cost_monitor \<times> (integrate_error + integrate_output)" where
  "dualRouterGenerate cm grokReply claudeReply =
     (let cm1 = trackCall cm in
      if \<not> checkLimit cm1 then (cm1, Inl Limit_exceeded)
      else
        (case grokReply of
           None \<Rightarrow> (cm1, Inl Grok_failed)
         | Some grokText \<Rightarrow>
             (let cm2 = trackCall cm1 in
              if \<not> checkLimit cm2 then (cm2, Inr (parseOutput grokText Grok))
              else
                (case claudeReply of
                   None \<Rightarrow> (cm2, Inr (parseOutput grokText Grok))
                 | Some finalText \<Rightarrow>
                     (let parsedClaude = parseOutput finalText Claude in
                      if length (io_files parsedClaude) > 0 then (cm2, Inr parsedClaude)
                      else (cm2, Inr (parseOutput grokText Grok)))))))"

section \<open>Diff engine\<close>

text \<open>
  The table \<^verbatim>\<open>dp\<close> of \<^verbatim>\<open>unifiedDiff\<close>: the entry \<^verbatim>\<open>dp[i][j]\<close> is \<open>dp\<close> of the lines
  from \<open>i\<close> on and the lines from \<open>j\<close> on, and the last row and column hold 0.
\<close>

fun dp :: "string list \<Rightarrow> string list \<Rightarrow> nat" where
  "dp [] ys = 0"
| "dp (x # xs) [] = 0"
| "dp (x # xs) (y # ys) =
     (if x = y then dp xs ys + 1 else max (dp xs (y # ys)) (dp (x # xs) ys))"

text \<open>
  The three \<^verbatim>\<open>while\<close> loops that fill \<^verbatim>\<open>out\<close>, on the lines that remain from
  \<open>i\<close> and from \<open>j\<close>.
\<close>

fun diff_ops :: "string list \<Rightarrow> string list \<Rightarrow> string list" where
  "diff_ops [] ys = map (\<lambda>l. CHR ''+'' # l) ys"
| "diff_ops (x # xs) [] = map (\<lambda>l. CHR ''-'' # l) (x # xs)"
| "diff_ops (x # xs) (y # ys) =
     (if x = y then (CHR '' '' # x) # diff_ops xs ys
      else if dp xs (y # ys) \<ge> dp (x # xs) ys then (CHR ''-'' # x) # diff_ops xs (y # ys)
      else (CHR ''+'' # y) # diff_ops (x # xs) ys)"

definition unifiedDiff :: "string \<Rightarrow> string \<Rightarrow> string" where
  "unifiedDiff oldText newText = join_nl (diff_ops (split_nl oldText) (split_nl newText))"

definition is_header :: "string \<Rightarrow> bool" where
  "is_header line = (prefix ''--- '' line \<or> prefix ''+++ '' line \<or> prefix ''@@'' line)"

definition parseUnifiedDiff :: "string \<Rightarrow> string list" where
  "parseUnifiedDiff diffText = filter (\<lambda>line. \<not> is_header line) (split_nl diffText)"

text \<open>\<^verbatim>\<open>lines[i]\<close>, which is \<^verbatim>\<open>undefined\<close> past the end and then equals no string.\<close>

definition line_at :: "string list \<Rightarrow> nat \<Rightarrow> string option" where
  "line_at ls i = (if i < length ls then Some (ls ! i) else None)"

text \<open>
  The \<^verbatim>\<open>for (const op of operations)\<close> loop of \<^verbatim>\<open>applyUnifiedDiff\<close> with its
  variables \<^verbatim>\<open>i\<close> and \<^verbatim>\<open>result\<close>; \<open>None\<close> is the early \<^verbatim>\<open>return before\<close>.
\<close>

fun apply_ops ::
  "string list \<Rightarrow> string list \<Rightarrow> nat \<Rightarrow> string list \<Rightarrow> (string list \<times> nat) option" where
  "apply_ops [] beforeLines i result = Some (result, i)"
| "apply_ops (op # ops) beforeLines i result =
     (if prefix '' '' op then
        (let expected = drop 1 op in
         if line_at beforeLines i = Some expected
         then apply_ops ops beforeLines (i + 1) (result @ [expected])
         else None)
      else if prefix ''-'' op then
        (let toRemove = drop 1 op in
         if line_at beforeLines i = Some toRemove
         then apply_ops ops beforeLines (i + 1) result
         else apply_ops ops beforeLines i result)
      else if prefix ''+'' op then apply_ops ops beforeLines i (result @ [drop 1 op])
      else apply_ops ops beforeLines i (result @ [op]))"

definition applyUnifiedDiff :: "string \<Rightarrow> string \<Rightarrow> string" where
  "applyUnifiedDiff before diffText =
     (let operations = parseUnifiedDiff diffText;
          beforeLines = split_nl before
      in case apply_ops operations beforeLines 0 [] of
           None \<Rightarrow> before
         | Some (result, i) \<Rightarrow> join_nl (result @ drop i beforeLines))"

text \<open>The client's copy, which drops a line with an unknown marker.\<close>

fun apply_ops_client ::
  "string list \<Rightarrow> string list \<Rightarrow> nat \<Rightarrow> string list \<Rightarrow> (string list \<times> nat) option" where
  "apply_ops_client [] beforeLines i out = Some (out, i)"
| "apply_ops_client (l # ls) beforeLines i out =
     (if prefix '' '' l then
        (let expect = drop 1 l in
         if line_at beforeLines i = Some expect
         then apply_ops_client ls beforeLines (i + 1) (out @ [expect])
         else None)
      else if prefix ''-'' l then
        (let rem = drop 1 l in
         if line_at beforeLines i = Some rem
         then apply_ops_client ls beforeLines (i + 1) out
         else apply_ops_client ls beforeLines i out)
      else if prefix ''+'' l then apply_ops_client ls beforeLines i (out @ [drop 1 l])
      else apply_ops_client ls beforeLines i out)"

definition applyUnifiedDiffClient :: "string \<Rightarrow> string \<Rightarrow> string" where
  "applyUnifiedDiffClient before unified =
     (let lines = filter (\<lambda>l. \<not> is_header l) (split_nl unified);
          beforeLines = split_nl before
      in case apply_ops_client lines beforeLines 0 [] of
           None \<Rightarrow> before
         | Some (out, i) \<Rightarrow> join_nl (out @ drop i beforeLines))"

section \<open>Staged-change manager (the files store)\<close>
text \<open>
  The store of \<^verbatim>\<open>useFilesStore\<close>: \<^verbatim>\<open>files\<close> is a \<^verbatim>\<open>Record<string, string>\<close>,
  a plain object, modelled as the partial map of its own properties;
  \<^verbatim>\<open>userEdits\<close> is a \<^verbatim>\<open>Set<string>\<close>, \<^verbatim>\<open>stagedChanges\<close> an array of changes. The
  optional \<^verbatim>\<open>modelUsed\<close> tag of a change is an \<open>option\<close>.
\<close>

record staged_change =
  path :: string
  before :: string
  after :: string
  modelUsed :: "model option"

record files_state =
  files :: "string \<rightharpoonup> string"
  userEdits :: "string set"
  openTabs :: "string list"
  activePath :: "string option"
  stagedChanges :: "staged_change list"

record apply_result =
  applied :: nat
  skipped :: nat

text \<open>
  The assignment \<^verbatim>\<open>obj[key] = value\<close> on a plain object. An own property is
  overwritten, and a new key becomes an own property, with one exception: when
  \<open>__proto__\<close> is not an own property the assignment reaches the accessor of
  \<^verbatim>\<open>Object.prototype\<close>, whose setter ignores a string, and the object keeps the
  properties it had. (The copy \<^verbatim>\<open>{ ...files }\<close> keeps an own \<open>__proto__\<close> property,
  which \<^verbatim>\<open>updateFile\<close> can create through its computed key.)
\<close>

definition assign_prop :: "(string \<rightharpoonup> string) \<Rightarrow> string \<Rightarrow> string \<Rightarrow> (string \<rightharpoonup> string)" where
  "assign_prop obj key v =
     (if key = ''__proto__'' \<and> obj key = None then obj else obj(key \<mapsto> v))"

text \<open>
  The body of the \<^verbatim>\<open>for (const change of stagedChanges)\<close> loop, with the four
  variables it updates: \<^verbatim>\<open>nextFiles\<close>, \<^verbatim>\<open>edits\<close>, \<^verbatim>\<open>applied\<close>, \<^verbatim>\<open>skipped\<close>.
  The second test of \<^verbatim>\<open>edits.has(change.path)\<close> is kept as the source has it.
\<close>

fun apply_loop ::
  "staged_change list \<Rightarrow> (string \<rightharpoonup> string) \<Rightarrow> string set \<Rightarrow> nat \<Rightarrow> nat
    \<Rightarrow> (string \<rightharpoonup> string) \<times> string set \<times> nat \<times> nat" where
  "apply_loop [] nextFiles edits ap sk = (nextFiles, edits, ap, sk)"
| "apply_loop (change # rest) nextFiles edits ap sk =
     (if path change \<in> edits then apply_loop rest nextFiles edits ap (sk + 1)
      else
        let nextFiles' = assign_prop nextFiles (path change) (after change);
            edits' = (if path change \<in> edits then edits - {path change} else edits)
        in apply_loop rest nextFiles' edits' (ap + 1) sk)"

definition applyStagedChanges :: "files_state \<Rightarrow> files_state \<times> apply_result" where
  "applyStagedChanges s =
     (case apply_loop (stagedChanges s) (files s) (userEdits s) 0 0 of
        (nextFiles, edits, ap, sk) \<Rightarrow>
          (s\<lparr>files := nextFiles, stagedChanges := [], userEdits := edits\<rparr>,
           \<lparr>applied = ap, skipped = sk\<rparr>))"

text \<open>The value the loop leaves at a path: the last write wins.\<close>

fun last_after :: "string \<Rightarrow> staged_change list \<Rightarrow> string option" where
  "last_after p [] = None"
| "last_after p (c # cs) =
     (case last_after p cs of Some a \<Rightarrow> Some a
      | None \<Rightarrow> (if path c = p then Some (after c) else None))"


section \<open>Semantic recall\<close>

text \<open>
  The loop of \<^verbatim>\<open>cosineSimilarity\<close> runs over the indices below
  \<^verbatim>\<open>Math.min(a.length, b.length)\<close>, that is over the common prefix.
\<close>

fun cosine_sums :: "real list \<Rightarrow> real list \<Rightarrow> real \<Rightarrow> real \<Rightarrow> real \<Rightarrow> real \<times> real \<times> real" where
  "cosine_sums (x # xs) (y # ys) dot na nb =
     cosine_sums xs ys (dot + x * y) (na + x * x) (nb + y * y)"
| "cosine_sums [] ys dot na nb = (dot, na, nb)"
| "cosine_sums (x # xs) [] dot na nb = (dot, na, nb)"

definition cosineSimilarity :: "real list \<Rightarrow> real list \<Rightarrow> real" where
  "cosineSimilarity a b =
     (case cosine_sums a b 0 0 0 of
        (dot, na, nb) \<Rightarrow>
          if na = 0 \<or> nb = 0 then 0 else dot / (sqrt na * sqrt nb))"

record recall_row =
  row_id :: string
  row_type :: string
  row_content :: string
  row_embedding :: "real list option"
  row_created_at :: string

text \<open>
  \<^verbatim>\<open>xs.slice(0, limit)\<close>: a negative end counts from the end of the array.
\<close>

definition slice0 :: "'a list \<Rightarrow> int \<Rightarrow> 'a list" where
  "slice0 xs limit =
     (if limit < 0 then take (nat (int (length xs) + limit)) xs else take (nat limit) xs)"

text \<open>
  The constant \<^verbatim>\<open>scored\<close> of the \<^verbatim>\<open>similar\<close> route: score every row of the
  window, keep the scores from \<open>minSim\<close> up, sort with the comparator
  \<^verbatim>\<open>(a, b) => b.score - a.score\<close> (the sort is stable), cut at \<open>limit\<close>.
\<close>

definition scored :: "real list \<Rightarrow> recall_row list \<Rightarrow> real \<Rightarrow> int \<Rightarrow> (recall_row \<times> real) list" where
  "scored emb rows minSim limit =
     slice0
       (sort_key (\<lambda>r. - snd r)
          (filter (\<lambda>r. snd r \<ge> minSim)
             (map (\<lambda>row. (row, cosineSimilarity emb
                                 (case row_embedding row of Some e \<Rightarrow> e | None \<Rightarrow> [])))
                rows)))
       limit"

section \<open>Properties\<close>

subsection \<open>The loop of the store, closed form\<close>

lemma apply_loop_edits:
  "fst (snd (apply_loop cs nf edits ap sk)) = edits"
  by (induction cs arbitrary: nf ap sk) (simp_all add: Let_def)

lemma apply_loop_applied:
  "fst (snd (snd (apply_loop cs nf edits ap sk)))
     = ap + length (filter (\<lambda>c. path c \<notin> edits) cs)"
  by (induction cs arbitrary: nf ap sk) (simp_all add: Let_def)

lemma apply_loop_skipped:
  "snd (snd (snd (apply_loop cs nf edits ap sk)))
     = sk + length (filter (\<lambda>c. path c \<in> edits) cs)"
  by (induction cs arbitrary: nf ap sk) (simp_all add: Let_def)

text \<open>
  A path that the loop cannot write keeps its content: a locally edited path, and
  \<open>__proto__\<close> when the file map does not hold it. Every other path holds the last
  content written for it.
\<close>

lemma apply_loop_files:
  "fst (apply_loop cs nf edits ap sk) p =
     (if p \<in> edits \<or> (p = ''__proto__'' \<and> nf p = None) then nf p
      else case last_after p cs of Some a \<Rightarrow> Some a | None \<Rightarrow> nf p)"
  (is "?L cs nf ap sk = ?R cs nf")
proof (induction cs arbitrary: nf ap sk)
  case Nil
  show ?case by simp
next
  case (Cons c cs)
  show ?case
  proof (cases "path c \<in> edits")
    case True
    then have "?L (c # cs) nf ap sk = ?L cs nf ap (sk + 1)" by simp
    also have "\<dots> = ?R cs nf" by (rule Cons.IH)
    also from True have "\<dots> = ?R (c # cs) nf" by (auto split: option.splits)
    finally show ?thesis .
  next
    case False
    let ?nf = "assign_prop nf (path c) (after c)"
    from False have "?L (c # cs) nf ap sk = ?L cs ?nf (ap + 1) sk"
      by (simp add: Let_def)
    also have "\<dots> = ?R cs ?nf" by (rule Cons.IH)
    also have "\<dots> = ?R (c # cs) nf"
    proof (cases "p = ''__proto__'' \<and> nf p = None")
      case True
      then have pp: "p = ''__proto__''" and np: "nf ''__proto__'' = None" by blast+
      then have "assign_prop nf (path c) (after c) ''__proto__'' = None"
        by (auto simp: assign_prop_def)
      with np show ?thesis unfolding pp by simp
    next
      case writable: False
      show ?thesis
      proof (cases "path c = p")
        case True
        with writable have "?nf p = Some (after c)" by (auto simp: assign_prop_def)
        with True writable False show ?thesis
          by (auto split: option.splits)
      next
        case other: False
        then have "?nf p = nf p" by (simp add: assign_prop_def)
        with other writable show ?thesis
          by (auto split: option.splits)
      qed
    qed
    finally show ?thesis .
  qed
qed

lemma last_after_None: "last_after p cs = None \<longleftrightarrow> p \<notin> path ` set cs"
  by (induction cs) (auto split: option.splits)

lemma last_after_distinct:
  "distinct (map path cs) \<Longrightarrow> c \<in> set cs \<Longrightarrow> last_after (path c) cs = Some (after c)"
proof (induction cs)
  case Nil
  then show ?case by simp
next
  case (Cons d cs)
  show ?case
  proof (cases "c \<in> set cs")
    case True
    with Cons show ?thesis by simp
  next
    case False
    with Cons.prems have "c = d" and "path d \<notin> path ` set cs" by auto
    then have "last_after (path d) cs = None" by (simp add: last_after_None)
    with \<open>c = d\<close> show ?thesis by simp
  qed
qed

lemma applyStagedChanges_files:
  "files (fst (applyStagedChanges s)) p = fst (apply_loop (stagedChanges s) (files s) (userEdits s) 0 0) p"
  by (simp add: applyStagedChanges_def split_beta)

subsection \<open>Staged-apply conflict policy\<close>

text \<open>
  The policy on every path that the assignment can write: the counts follow membership
  in the local-edit set; a non-conflicting change whose path is not \<open>__proto__\<close>, or
  whose path the file map already holds, leaves at its path the \<open>after\<close> content written
  last for it (its own when the staged paths are distinct); a path in the local-edit
  set, and a path that no staged change names, keeps its content.
\<close>

lemma applyStagedChanges_writable_paths:
  "applied (snd (applyStagedChanges s))
       = length (filter (\<lambda>c. path c \<notin> userEdits s) (stagedChanges s))
   \<and> skipped (snd (applyStagedChanges s))
       = length (filter (\<lambda>c. path c \<in> userEdits s) (stagedChanges s))
   \<and> (\<forall>c \<in> set (stagedChanges s).
         path c \<notin> userEdits s \<and> (path c \<noteq> ''__proto__'' \<or> files s (path c) \<noteq> None) \<longrightarrow>
         files (fst (applyStagedChanges s)) (path c) = last_after (path c) (stagedChanges s)
         \<and> (distinct (map path (stagedChanges s)) \<longrightarrow>
              files (fst (applyStagedChanges s)) (path c) = Some (after c)))
   \<and> (\<forall>p. p \<in> userEdits s \<or> p \<notin> path ` set (stagedChanges s) \<longrightarrow>
         files (fst (applyStagedChanges s)) p = files s p)"
proof (intro conjI ballI allI impI)
  show "applied (snd (applyStagedChanges s))
          = length (filter (\<lambda>c. path c \<notin> userEdits s) (stagedChanges s))"
    using apply_loop_applied [of "stagedChanges s" "files s" "userEdits s" 0 0]
    by (simp add: applyStagedChanges_def split_beta)
  show "skipped (snd (applyStagedChanges s))
          = length (filter (\<lambda>c. path c \<in> userEdits s) (stagedChanges s))"
    using apply_loop_skipped [of "stagedChanges s" "files s" "userEdits s" 0 0]
    by (simp add: applyStagedChanges_def split_beta)
next
  fix c assume c: "c \<in> set (stagedChanges s)"
    and free: "path c \<notin> userEdits s \<and> (path c \<noteq> ''__proto__'' \<or> files s (path c) \<noteq> None)"
  from c have "last_after (path c) (stagedChanges s) \<noteq> None"
    by (simp add: last_after_None)
  with free show written:
    "files (fst (applyStagedChanges s)) (path c) = last_after (path c) (stagedChanges s)"
    by (auto simp: applyStagedChanges_files apply_loop_files)
  assume "distinct (map path (stagedChanges s))"
  with c written show "files (fst (applyStagedChanges s)) (path c) = Some (after c)"
    by (simp add: last_after_distinct)
next
  fix p assume "p \<in> userEdits s \<or> p \<notin> path ` set (stagedChanges s)"
  then show "files (fst (applyStagedChanges s)) p = files s p"
    using last_after_None [of p "stagedChanges s"]
    by (auto simp: applyStagedChanges_files apply_loop_files)
qed

text \<open>
  The example of the specification: local edits \<open>{a.txt}\<close>, staged changes for \<open>a.txt\<close>
  and \<open>b.txt\<close>.
\<close>

lemma applyStagedChanges_example:
  "applied (snd (applyStagedChanges
       \<lparr>files = [''a.txt'' \<mapsto> ''A0'', ''b.txt'' \<mapsto> ''B0''], userEdits = {''a.txt''},
        openTabs = [], activePath = None,
        stagedChanges =
          [\<lparr>path = ''a.txt'', before = ''A0'', after = ''A1'', modelUsed = None\<rparr>,
           \<lparr>path = ''b.txt'', before = ''B0'', after = ''B1'', modelUsed = Some Grok\<rparr>]\<rparr>)) = 1
   \<and> skipped (snd (applyStagedChanges
       \<lparr>files = [''a.txt'' \<mapsto> ''A0'', ''b.txt'' \<mapsto> ''B0''], userEdits = {''a.txt''},
        openTabs = [], activePath = None,
        stagedChanges =
          [\<lparr>path = ''a.txt'', before = ''A0'', after = ''A1'', modelUsed = None\<rparr>,
           \<lparr>path = ''b.txt'', before = ''B0'', after = ''B1'', modelUsed = Some Grok\<rparr>]\<rparr>)) = 1
   \<and> files (fst (applyStagedChanges
       \<lparr>files = [''a.txt'' \<mapsto> ''A0'', ''b.txt'' \<mapsto> ''B0''], userEdits = {''a.txt''},
        openTabs = [], activePath = None,
        stagedChanges =
          [\<lparr>path = ''a.txt'', before = ''A0'', after = ''A1'', modelUsed = None\<rparr>,
           \<lparr>path = ''b.txt'', before = ''B0'', after = ''B1'', modelUsed = Some Grok\<rparr>]\<rparr>))
       ''b.txt'' = Some ''B1''
   \<and> files (fst (applyStagedChanges
       \<lparr>files = [''a.txt'' \<mapsto> ''A0'', ''b.txt'' \<mapsto> ''B0''], userEdits = {''a.txt''},
        openTabs = [], activePath = None,
        stagedChanges =
          [\<lparr>path = ''a.txt'', before = ''A0'', after = ''A1'', modelUsed = None\<rparr>,
           \<lparr>path = ''b.txt'', before = ''B0'', after = ''B1'', modelUsed = Some Grok\<rparr>]\<rparr>))
       ''a.txt'' = Some ''A0''"
  by (simp add: applyStagedChanges_def assign_prop_def)

text \<open>
  Claim C3. The claim: \<^verbatim>\<open>applyStagedChanges\<close> returns \<open>applied\<close> equal to the number of
  staged changes whose path is not in the local-edit set and \<open>skipped\<close> equal to the
  number whose path is in it, writes the \<open>after\<close> content of each non-conflicting change
  into the file map, and leaves every other path unchanged. The code does not write a
  non-conflicting change whose path is \<open>__proto__\<close> when the file map does not hold that
  path: with an empty file map, no local edits and the one staged change
  \<open>{path: "__proto__", before: "", after: "P1"}\<close> it returns \<open>applied = 1\<close>,
  \<open>skipped = 0\<close> and the file map still has no content at \<open>__proto__\<close>.
\<close>

theorem applyStagedChanges_proto_path_not_written:
  "applied (snd (applyStagedChanges
       \<lparr>files = Map.empty, userEdits = {}, openTabs = [], activePath = None,
        stagedChanges =
          [\<lparr>path = ''__proto__'', before = [], after = ''P1'', modelUsed = Some Grok\<rparr>]\<rparr>)) = 1
   \<and> skipped (snd (applyStagedChanges
       \<lparr>files = Map.empty, userEdits = {}, openTabs = [], activePath = None,
        stagedChanges =
          [\<lparr>path = ''__proto__'', before = [], after = ''P1'', modelUsed = Some Grok\<rparr>]\<rparr>)) = 0
   \<and> files (fst (applyStagedChanges
       \<lparr>files = Map.empty, userEdits = {}, openTabs = [], activePath = None,
        stagedChanges =
          [\<lparr>path = ''__proto__'', before = [], after = ''P1'', modelUsed = Some Grok\<rparr>]\<rparr>))
       ''__proto__'' = None"
  by (simp add: applyStagedChanges_def assign_prop_def)

subsection \<open>What the apply operation leaves alone\<close>

text \<open>
  Claim C10. For every store state, \<^verbatim>\<open>applyStagedChanges\<close> leaves the local-edit set
  \<open>userEdits\<close> exactly as it was: no path is removed from it, not even the path of a change
  that is applied, and none is added. The open tabs and the active path are unchanged
  too; the pending staged-change list is always set to empty, and the file map is the
  only other component that can change.
\<close>

theorem applyStagedChanges_frame:
  "userEdits (fst (applyStagedChanges s)) = userEdits s
   \<and> openTabs (fst (applyStagedChanges s)) = openTabs s
   \<and> activePath (fst (applyStagedChanges s)) = activePath s
   \<and> stagedChanges (fst (applyStagedChanges s)) = []
   \<and> files_state.more (fst (applyStagedChanges s)) = files_state.more s"
  using apply_loop_edits [of "stagedChanges s" "files s" "userEdits s" 0 0]
  by (simp add: applyStagedChanges_def split_beta)

subsection \<open>Routing precedence\<close>

lemma str_includes_iff: "str_includes s pat \<longleftrightarrow> (\<exists>u v. s = u @ pat @ v)"
proof (induction s)
  case Nil
  show ?case by auto
next
  case (Cons c cs)
  show ?case
  proof
    assume "str_includes (c # cs) pat"
    then consider "prefix pat (c # cs)" | "str_includes cs pat" by auto
    then show "\<exists>u v. c # cs = u @ pat @ v"
    proof cases
      case 1
      then obtain v where "c # cs = pat @ v" by (auto simp: prefix_def)
      then have "c # cs = [] @ pat @ v" by simp
      then show ?thesis by blast
    next
      case 2
      with Cons.IH obtain u v where "cs = u @ pat @ v" by blast
      then have "c # cs = (c # u) @ pat @ v" by simp
      then show ?thesis by blast
    qed
  next
    assume "\<exists>u v. c # cs = u @ pat @ v"
    then obtain u v where uv: "c # cs = u @ pat @ v" by blast
    show "str_includes (c # cs) pat"
    proof (cases u)
      case Nil
      with uv have "prefix pat (c # cs)" by (simp add: prefix_def)
      then show ?thesis by simp
    next
      case (Cons d u')
      with uv have "cs = u' @ pat @ v" by simp
      with Cons.IH have "str_includes cs pat" by blast
      then show ?thesis by simp
    qed
  qed
qed

text \<open>
  Claim C5. \<^verbatim>\<open>decideRoute\<close> is a total function of (prompt, vibe, mode), so equal
  inputs give equal routes. A \<open>dual\<close> mode or a \<open>dual\<close> preset gives the chained route
  whatever the prompt says; otherwise the \<open>scrappy\<close> preset gives the fast model alone;
  otherwise the \<open>enterprise\<close> preset gives the refine model alone; otherwise a prompt
  whose lower-cased text contains \<open>build\<close> or \<open>creative\<close> gives the fast model, else one
  that contains \<open>refine\<close> or \<open>harden\<close> gives the refine model, else the fast model.
\<close>

theorem decideRoute_precedence:
  "(mode = Some ''dual'' \<or> vibe = Some ''dual'' \<longrightarrow> decideRoute prompt vibe mode = R_dual)
   \<and> (mode \<noteq> Some ''dual'' \<and> vibe = Some ''scrappy'' \<longrightarrow>
         decideRoute prompt vibe mode = R_grok)
   \<and> (mode \<noteq> Some ''dual'' \<and> vibe = Some ''enterprise'' \<longrightarrow>
         decideRoute prompt vibe mode = R_claude)
   \<and> (mode \<noteq> Some ''dual'' \<and> vibe \<noteq> Some ''dual'' \<and> vibe \<noteq> Some ''scrappy''
        \<and> vibe \<noteq> Some ''enterprise'' \<longrightarrow>
         decideRoute prompt vibe mode =
           (if (\<exists>u v. toLowerCase prompt = u @ ''build'' @ v)
               \<or> (\<exists>u v. toLowerCase prompt = u @ ''creative'' @ v) then R_grok
            else if (\<exists>u v. toLowerCase prompt = u @ ''refine'' @ v)
               \<or> (\<exists>u v. toLowerCase prompt = u @ ''harden'' @ v) then R_claude
            else R_grok))"
  unfolding str_includes_iff [symmetric]
  by (simp add: decideRoute_def Let_def)

theorem decideRoute_precedence_witness:
  "decideRoute ''Refine and harden'' (Some ''scrappy'') (Some ''dual'') = R_dual
   \<and> decideRoute ''Build a form'' (Some ''dual'') None = R_dual
   \<and> decideRoute ''Refine and harden'' (Some ''scrappy'') None = R_grok
   \<and> decideRoute ''Build a form'' (Some ''enterprise'') None = R_claude
   \<and> decideRoute ''Please HARDEN it'' (Some ''a11y'') None = R_claude
   \<and> decideRoute ''Build, then harden'' None (Some ''fast'') = R_grok
   \<and> decideRoute ''A login page'' None None = R_grok"
  using decideRoute_precedence [of "Some ''dual''" "Some ''scrappy''" "''Refine and harden''"]
        decideRoute_precedence [of None "Some ''dual''" "''Build a form''"]
        decideRoute_precedence [of None "Some ''scrappy''" "''Refine and harden''"]
        decideRoute_precedence [of None "Some ''enterprise''" "''Build a form''"]
  by (simp add: decideRoute_def toLowerCase_def lower_char_def char_of_def bit_Suc_0_iff)

subsection \<open>Tie-break of the diff\<close>

lemma split_nl_plain: "newline \<notin> set s \<Longrightarrow> split_nl s = [s]"
  by (induction s) (auto simp: Let_def)

text \<open>
  The table entry is the length of a longest common subsequence of the lines that
  remain: some common subsequence has that length and none is longer.
\<close>

lemma dp_attained:
  "\<exists>zs. subseq zs xs \<and> subseq zs ys \<and> length zs = dp xs ys"
proof (induction xs ys rule: dp.induct)
  case (1 ys)
  show ?case by simp
next
  case (2 x xs)
  show ?case by simp
next
  case (3 x xs y ys)
  show ?case
  proof (cases "x = y")
    case True
    with "3.IH"(1) obtain zs where "subseq zs xs" "subseq zs ys" "length zs = dp xs ys"
      by blast
    with True have "subseq (x # zs) (x # xs) \<and> subseq (x # zs) (y # ys)
                      \<and> length (x # zs) = dp (x # xs) (y # ys)"
      by simp
    then show ?thesis by blast
  next
    case False
    show ?thesis
    proof (cases "dp (x # xs) ys \<le> dp xs (y # ys)")
      case True
      from "3.IH"(2) [OF False] obtain zs where
        "subseq zs xs" "subseq zs (y # ys)" "length zs = dp xs (y # ys)" by blast
      with False True have "subseq zs (x # xs) \<and> subseq zs (y # ys)
                              \<and> length zs = dp (x # xs) (y # ys)"
        by (simp add: max_def list_emb_Cons)
      then show ?thesis by blast
    next
      case gt: False
      from "3.IH"(3) [OF False] obtain zs where
        "subseq zs (x # xs)" "subseq zs ys" "length zs = dp (x # xs) ys" by blast
      with False gt have "subseq zs (x # xs) \<and> subseq zs (y # ys)
                              \<and> length zs = dp (x # xs) (y # ys)"
        by (simp add: max_def list_emb_Cons)
      then show ?thesis by blast
    qed
  qed
qed

lemma dp_bound:
  "subseq zs xs \<Longrightarrow> subseq zs ys \<Longrightarrow> length zs \<le> dp xs ys"
proof (induction xs ys arbitrary: zs rule: dp.induct)
  case (1 ys)
  then show ?case by simp
next
  case (2 x xs)
  then show ?case by simp
next
  case (3 x xs y ys)
  show ?case
  proof (cases zs)
    case Nil
    then show ?thesis by simp
  next
    case (Cons z zs')
    show ?thesis
    proof (cases "x = y")
      case True
      show ?thesis
      proof (cases "z = x")
        case zx: True
        with "3.prems" Cons True have "subseq zs' xs" "subseq zs' ys"
          by (simp_all add: subseq_Cons2_iff)
        with "3.IH"(1) [OF True] have "length zs' \<le> dp xs ys" by blast
        with Cons True show ?thesis by simp
      next
        case zx: False
        with "3.prems" Cons True have "subseq zs xs" "subseq zs ys"
          by (simp_all add: subseq_Cons2_iff)
        with "3.IH"(1) [OF True] have "length zs \<le> dp xs ys" by blast
        with True show ?thesis by simp
      qed
    next
      case False
      show ?thesis
      proof (cases "z = x")
        case zx: True
        with "3.prems" Cons False have "subseq zs (x # xs)" "subseq zs ys"
          by (simp_all add: subseq_Cons2_iff)
        with "3.IH"(3) [OF False] have "length zs \<le> dp (x # xs) ys" by blast
        with False show ?thesis by simp
      next
        case zx: False
        with "3.prems" Cons False have "subseq zs xs" "subseq zs (y # ys)"
          by (simp_all add: subseq_Cons2_iff)
        with "3.IH"(2) [OF False] have "length zs \<le> dp xs (y # ys)" by blast
        with False show ?thesis by simp
      qed
    qed
  qed
qed

text \<open>
  Claim C8. Whenever the two lines at the cursors differ and the remaining LCS length is
  the same whether the before-line or the after-line is consumed next
  (\<^verbatim>\<open>dp[i + 1][j] = dp[i][j + 1]\<close>, where each entry is the LCS length of the lines
  that remain), \<^verbatim>\<open>unifiedDiff\<close> consumes the before-line first: the next line it emits
  is the \<open>-\<close> line, and the \<open>+\<close> line of the after-line can only come later. In
  particular the diff of two different one-line texts is the \<open>-\<close> line followed by the
  \<open>+\<close> line.
\<close>

theorem unifiedDiff_tie_break:
  "(\<exists>zs. subseq zs xs \<and> subseq zs ys \<and> length zs = dp xs ys)
   \<and> (\<forall>zs. subseq zs xs \<and> subseq zs ys \<longrightarrow> length zs \<le> dp xs ys)
   \<and> (x \<noteq> y \<and> dp xs (y # ys) = dp (x # xs) ys \<longrightarrow>
      diff_ops (x # xs) (y # ys) = (CHR ''-'' # x) # diff_ops xs (y # ys))
   \<and> (newline \<notin> set oldText \<and> newline \<notin> set newText \<and> oldText \<noteq> newText \<longrightarrow>
      unifiedDiff oldText newText = (CHR ''-'' # oldText) @ newline # CHR ''+'' # newText)"
  by (simp add: unifiedDiff_def split_nl_plain dp_attained dp_bound)

theorem unifiedDiff_tie_break_witness:
  "''a'' \<noteq> ''b'' \<and> dp [''c''] [''b'', ''c''] = dp [''a'', ''c''] [''c'']
   \<and> diff_ops [''a'', ''c''] [''b'', ''c''] = [''-a'', ''+b'', '' c'']
   \<and> unifiedDiff ''a'' ''b'' = ''-a'' @ newline # ''+b''"
  using unifiedDiff_tie_break [of "[''c'']" "[''c'']" "''a''" "''b''" "''a''" "''b''"]
  by (simp add: newline_def)

subsection \<open>Cosine similarity of a zero-norm vector\<close>










subsection \<open>Tolerant apply: a context mismatch is a no-op\<close>

lemma apply_ops_append:
  "apply_ops (pre @ rest) bl i res =
     (case apply_ops pre bl i res of
        None \<Rightarrow> None
      | Some (r, j) \<Rightarrow> apply_ops rest bl j r)"
  by (induction pre arbitrary: i res) (simp_all add: Let_def)

lemma apply_ops_client_append:
  "apply_ops_client (pre @ rest) bl i res =
     (case apply_ops_client pre bl i res of
        None \<Rightarrow> None
      | Some (r, j) \<Rightarrow> apply_ops_client rest bl j r)"
  by (induction pre arbitrary: i res) (simp_all add: Let_def)

text \<open>
  Claim C4. For every base text \<open>B\<close> and every diff text: if the replay reaches a context
  line (an operation that starts with a space) that does not equal the line of \<open>B\<close> at
  the current cursor position (or the cursor is past the last line of \<open>B\<close>), then
  \<^verbatim>\<open>applyUnifiedDiff\<close> returns \<open>B\<close> itself, whatever was accumulated before and whatever
  operations follow: it does not raise and does not return a shortened text. The same
  holds of the client's \<^verbatim>\<open>applyUnifiedDiffClient\<close>.
\<close>

theorem applyUnifiedDiff_fail_closed:
  "(parseUnifiedDiff D = pre @ op # post \<and> prefix '' '' op
      \<and> apply_ops pre (split_nl B) 0 [] = Some (result, i)
      \<and> line_at (split_nl B) i \<noteq> Some (drop 1 op)
    \<longrightarrow> applyUnifiedDiff B D = B)
   \<and> (parseUnifiedDiff D = pre @ op # post \<and> prefix '' '' op
      \<and> apply_ops_client pre (split_nl B) 0 [] = Some (result, i)
      \<and> line_at (split_nl B) i \<noteq> Some (drop 1 op)
    \<longrightarrow> applyUnifiedDiffClient B D = B)"
  by (simp add: applyUnifiedDiff_def applyUnifiedDiffClient_def parseUnifiedDiff_def
        apply_ops_append apply_ops_client_append Let_def)

theorem applyUnifiedDiff_fail_closed_witness:
  "parseUnifiedDiff '' a\<newline>+n\<newline> x\<newline>-b'' = ['' a'', ''+n''] @ '' x'' # [''-b'']
   \<and> apply_ops ['' a'', ''+n''] (split_nl ''a\<newline>b'') 0 [] = Some ([''a'', ''n''], 1)
   \<and> apply_ops_client ['' a'', ''+n''] (split_nl ''a\<newline>b'') 0 [] = Some ([''a'', ''n''], 1)
   \<and> line_at (split_nl ''a\<newline>b'') 1 \<noteq> Some (drop 1 '' x'')
   \<and> applyUnifiedDiff ''a\<newline>b'' '' a\<newline>+n\<newline> x\<newline>-b'' = ''a\<newline>b''
   \<and> applyUnifiedDiffClient ''a\<newline>b'' '' a\<newline>+n\<newline> x\<newline>-b'' = ''a\<newline>b''"
  using applyUnifiedDiff_fail_closed
    [of "'' a\<newline>+n\<newline> x\<newline>-b''" "['' a'', ''+n'']" "'' x''" "[''-b'']" "''a\<newline>b''"
        "[''a'', ''n'']" 1]
  by (simp add: parseUnifiedDiff_def is_header_def newline_def line_at_def Let_def)

subsection \<open>Diff round trip\<close>

lemma split_nl_nonempty: "split_nl s \<noteq> []"
  by (induction s) (simp_all add: Let_def)

lemma join_nl_Cons: "ls \<noteq> [] \<Longrightarrow> join_nl (l # ls) = l @ newline # join_nl ls"
  by (cases ls) simp_all

lemma join_split: "join_nl (split_nl s) = s"
proof (induction s)
  case Nil
  show ?case by simp
next
  case (Cons c cs)
  obtain l ls where r: "split_nl cs = l # ls"
    using split_nl_nonempty [of cs] by (cases "split_nl cs") auto
  show ?case
  proof (cases "c = newline")
    case True
    with Cons.IH show ?thesis by (simp add: join_nl_Cons split_nl_nonempty)
  next
    case False
    from Cons.IH r have "join_nl (l # ls) = cs" by simp
    then have "join_nl ((c # l) # ls) = c # cs" by (cases ls) auto
    with False r show ?thesis by (simp add: Let_def)
  qed
qed

lemma split_nl_line: "newline \<notin> set l \<Longrightarrow> split_nl (l @ newline # s) = l # split_nl s"
  by (induction l) (auto simp: Let_def)

lemma split_join:
  "ls \<noteq> [] \<Longrightarrow> \<forall>l \<in> set ls. newline \<notin> set l \<Longrightarrow> split_nl (join_nl ls) = ls"
proof (induction ls rule: join_nl.induct)
  case 1
  then show ?case by simp
next
  case (2 l)
  then show ?case by (simp add: split_nl_plain)
next
  case (3 l l' ls)
  then show ?case by (simp add: split_nl_line)
qed

lemma split_nl_no_newline: "l \<in> set (split_nl s) \<Longrightarrow> newline \<notin> set l"
proof (induction s arbitrary: l)
  case Nil
  then show ?case by simp
next
  case (Cons c cs)
  obtain h t where r: "split_nl cs = h # t"
    using split_nl_nonempty [of cs] by (cases "split_nl cs") auto
  with Cons.IH have h: "newline \<notin> set h" and t: "\<forall>l \<in> set t. newline \<notin> set l"
    by auto
  show ?case
  proof (cases "c = newline")
    case True
    with Cons.prems r h t show ?thesis by auto
  next
    case False
    with Cons.prems r h t show ?thesis by (auto simp: Let_def)
  qed
qed

lemma newline_not_marker:
  "newline \<noteq> CHR '' ''" "newline \<noteq> CHR ''-''" "newline \<noteq> CHR ''+''"
  by (simp_all add: newline_def)

lemma diff_ops_no_newline:
  "\<forall>l \<in> set xs. newline \<notin> set l \<Longrightarrow> \<forall>l \<in> set ys. newline \<notin> set l
     \<Longrightarrow> \<forall>l \<in> set (diff_ops xs ys). newline \<notin> set l"
  by (induction xs ys rule: diff_ops.induct) (auto simp: newline_not_marker)

lemma diff_ops_nonempty: "xs \<noteq> [] \<Longrightarrow> diff_ops xs ys \<noteq> []"
  by (cases xs; cases ys) simp_all

lemma line_at_cursor: "line_at (pre @ x # xs) (length pre) = Some x"
  by (simp add: line_at_def)

lemma apply_ops_plus:
  "apply_ops (map (\<lambda>l. CHR ''+'' # l) ys) bl i res = Some (res @ ys, i)"
  by (induction ys arbitrary: res) simp_all

lemma apply_ops_minus:
  "apply_ops (map (\<lambda>l. CHR ''-'' # l) xs) (pre @ xs) (length pre) res
     = Some (res, length pre + length xs)"
proof (induction xs arbitrary: pre)
  case Nil
  show ?case by simp
next
  case (Cons x xs)
  from Cons.IH [of "pre @ [x]"] show ?case
    by (simp add: line_at_cursor)
qed

lemma apply_ops_diff_ops:
  "apply_ops (diff_ops xs ys) (pre @ xs) (length pre) res
     = Some (res @ ys, length pre + length xs)"
proof (induction xs ys arbitrary: pre res rule: diff_ops.induct)
  case (1 ys)
  show ?case by (simp add: apply_ops_plus)
next
  case (2 x xs)
  show ?case using apply_ops_minus [of "x # xs" pre res] by simp
next
  case (3 x xs y ys)
  show ?case
  proof (cases "x = y")
    case True
    with "3.IH"(1) [of "pre @ [x]" "res @ [x]"] show ?thesis
      by (simp add: line_at_cursor)
  next
    case False
    show ?thesis
    proof (cases "dp (x # xs) ys \<le> dp xs (y # ys)")
      case True
      with False "3.IH"(2) [of "pre @ [x]" res] show ?thesis
        by (simp add: line_at_cursor)
    next
      case le: False
      with False "3.IH"(3) [of pre "res @ [y]"] show ?thesis
        by simp
    qed
  qed
qed

text \<open>
  The lines that \<^verbatim>\<open>unifiedDiff\<close> emits for a removed line \<open>-- x\<close> and for an added line
  \<open>++ x\<close> start with \<open>--- \<close> and \<open>+++ \<close>, and \<^verbatim>\<open>parseUnifiedDiff\<close> drops them as file
  headers. Here the base is the single line \<open>-- x\<close> and the candidate is empty: the diff
  is \<open>--- x\<close>, \<open>+\<close>, and applying it gives an empty line followed by \<open>-- x\<close>.
\<close>

lemma header_line_example:
  "unifiedDiff ''-- x'' [] = ''--- x\<newline>+'' \<and> applyUnifiedDiff ''-- x'' ''--- x\<newline>+'' = ''\<newline>-- x''"
  by (simp add: applyUnifiedDiff_def unifiedDiff_def parseUnifiedDiff_def is_header_def
        newline_def line_at_def Let_def)

theorem diff_round_trip_counterexample:
  "applyUnifiedDiff ''-- x'' (unifiedDiff ''-- x'' []) \<noteq> []"
  by (simp add: applyUnifiedDiff_def unifiedDiff_def parseUnifiedDiff_def is_header_def
        newline_def line_at_def Let_def)

text \<open>
  Claim C1, amended. For every base text \<open>B\<close> and candidate text \<open>A\<close> such that no line of
  the computed diff is taken for a header by \<^verbatim>\<open>parseUnifiedDiff\<close> (no line of
  \<^verbatim>\<open>unifiedDiff(B, A)\<close> starts with \<open>--- \<close>, \<open>+++ \<close> or \<open>@@\<close>; that is, no line removed
  from \<open>B\<close> starts with \<open>-- \<close> and no line added by \<open>A\<close> starts with \<open>++ \<close>), applying
  the computed diff to the base gives the candidate:
  \<^verbatim>\<open>applyUnifiedDiff(B, unifiedDiff(B, A)) = A\<close>.
\<close>

theorem diff_round_trip_without_header_lines:
  assumes "\<forall>l \<in> set (split_nl (unifiedDiff B A)). \<not> is_header l"
  shows "applyUnifiedDiff B (unifiedDiff B A) = A"
proof -
  let ?ops = "diff_ops (split_nl B) (split_nl A)"
  have "\<forall>l \<in> set ?ops. newline \<notin> set l"
    by (rule diff_ops_no_newline) (simp_all add: split_nl_no_newline)
  then have lines: "split_nl (unifiedDiff B A) = ?ops"
    by (simp add: unifiedDiff_def split_join diff_ops_nonempty split_nl_nonempty)
  with assms have "parseUnifiedDiff (unifiedDiff B A) = ?ops"
    by (simp add: parseUnifiedDiff_def)
  moreover have "apply_ops ?ops (split_nl B) 0 [] = Some (split_nl A, length (split_nl B))"
    using apply_ops_diff_ops [of "split_nl B" "split_nl A" "[]" "[]"] by simp
  ultimately show ?thesis
    by (simp add: applyUnifiedDiff_def join_split)
qed

theorem diff_round_trip_without_header_lines_witness:
  "unifiedDiff ''a\<newline>b\<newline>c'' ''a\<newline>x\<newline>c'' = '' a\<newline>-b\<newline>+x\<newline> c''
   \<and> applyUnifiedDiff ''a\<newline>b\<newline>c'' (unifiedDiff ''a\<newline>b\<newline>c'' ''a\<newline>x\<newline>c'') = ''a\<newline>x\<newline>c''"
proof -
  have d: "unifiedDiff ''a\<newline>b\<newline>c'' ''a\<newline>x\<newline>c'' = '' a\<newline>-b\<newline>+x\<newline> c''"
    by (simp add: unifiedDiff_def newline_def Let_def)
  have h: "\<forall>l \<in> set (split_nl (unifiedDiff ''a\<newline>b\<newline>c'' ''a\<newline>x\<newline>c'')). \<not> is_header l"
    unfolding d by (simp add: is_header_def newline_def Let_def)
  from diff_round_trip_without_header_lines [OF h] d show ?thesis by simp
qed

subsection \<open>Recall query: filter, sort, truncate\<close>

lemma sort_key_descending:
  "sorted_wrt (\<lambda>a b. snd b \<le> (snd a :: real)) (sort_key (\<lambda>r. - snd r) xs)"
proof -
  have "sorted (map (\<lambda>r. - snd r) (sort_key (\<lambda>r. - snd r) xs))"
    by (rule sorted_sort_key)
  then show ?thesis by (simp add: sorted_map)
qed

lemma sqrt_169: "sqrt 169 = 13"
  using real_sqrt_abs [of 13] by simp

lemma sqrt_25: "sqrt 25 = 5"
  using real_sqrt_abs [of 5] by simp

lemma cos_examples:
  "cosineSimilarity [1, 0] [12, 5] = 12 / 13"
  "cosineSimilarity [1, 0] [4, 3] = 4 / 5"
  "cosineSimilarity [1, 0] [5, 12] = 5 / 13"
  "cosineSimilarity [1, 0] [] = 0"
  by (simp_all add: cosineSimilarity_def sqrt_169 sqrt_25)

text \<open>
  A negative \<open>limit\<close> reaches \<^verbatim>\<open>slice(0, limit)\<close> as it is and drops that many results
  from the end instead of keeping none: with three qualifying records and \<open>limit = -1\<close>
  the query returns two.
\<close>

theorem scored_negative_limit_counterexample:
  "scored [1, 0]
        [\<lparr>row_id = ''r1'', row_type = ''pattern'', row_content = ''p'',
          row_embedding = Some [4, 3], row_created_at = ''3''\<rparr>,
         \<lparr>row_id = ''r2'', row_type = ''pattern'', row_content = ''q'',
          row_embedding = Some [5, 12], row_created_at = ''2''\<rparr>,
         \<lparr>row_id = ''r3'', row_type = ''correction'', row_content = ''r'',
          row_embedding = Some [12, 5], row_created_at = ''1''\<rparr>]
        (3 / 10) (- 1)
      = [(\<lparr>row_id = ''r3'', row_type = ''correction'', row_content = ''r'',
            row_embedding = Some [12, 5], row_created_at = ''1''\<rparr>, 12 / 13),
         (\<lparr>row_id = ''r1'', row_type = ''pattern'', row_content = ''p'',
            row_embedding = Some [4, 3], row_created_at = ''3''\<rparr>, 4 / 5)]
   \<and> \<not> int (length (scored [1, 0]
        [\<lparr>row_id = ''r1'', row_type = ''pattern'', row_content = ''p'',
          row_embedding = Some [4, 3], row_created_at = ''3''\<rparr>,
         \<lparr>row_id = ''r2'', row_type = ''pattern'', row_content = ''q'',
          row_embedding = Some [5, 12], row_created_at = ''2''\<rparr>,
         \<lparr>row_id = ''r3'', row_type = ''correction'', row_content = ''r'',
          row_embedding = Some [12, 5], row_created_at = ''1''\<rparr>]
        (3 / 10) (- 1))) \<le> - 1"
  by (simp add: scored_def slice0_def cos_examples)

text \<open>
  Claim C7, amended. For every query embedding, stored-record window, threshold
  \<open>minSimilarity\<close> and every limit that is not negative, the similar-records query
  returns the stored records whose cosine similarity to the query is at least
  \<open>minSimilarity\<close>, each with its similarity, sorted in descending order of similarity
  and truncated to the first \<open>limit\<close> of them.
\<close>

theorem scored_filter_sort_truncate:
  assumes "0 \<le> limit"
  shows "\<exists>ranked.
           mset ranked =
             mset (filter (\<lambda>r. minSim \<le> snd r)
                     (map (\<lambda>row. (row, cosineSimilarity emb
                                          (case row_embedding row of Some e \<Rightarrow> e | None \<Rightarrow> [])))
                        rows))
           \<and> sorted_wrt (\<lambda>a b. snd b \<le> snd a) ranked
           \<and> scored emb rows minSim limit = take (nat limit) ranked"
proof (intro exI conjI)
  let ?qualifying = "filter (\<lambda>r. minSim \<le> snd r)
                       (map (\<lambda>row. (row, cosineSimilarity emb
                                          (case row_embedding row of Some e \<Rightarrow> e | None \<Rightarrow> [])))
                          rows)"
  show "mset (sort_key (\<lambda>r. - snd r) ?qualifying) = mset ?qualifying"
    by simp
  show "sorted_wrt (\<lambda>a b. snd b \<le> snd a) (sort_key (\<lambda>r. - snd r) ?qualifying)"
    by (rule sort_key_descending)
  from assms show "scored emb rows minSim limit
                     = take (nat limit) (sort_key (\<lambda>r. - snd r) ?qualifying)"
    by (simp add: scored_def slice0_def)
qed

theorem scored_filter_sort_truncate_witness:
  "(0::int) \<le> 2
   \<and> scored [1, 0]
        [\<lparr>row_id = ''r1'', row_type = ''pattern'', row_content = ''p'',
          row_embedding = Some [4, 3], row_created_at = ''3''\<rparr>,
         \<lparr>row_id = ''r2'', row_type = ''pattern'', row_content = ''q'',
          row_embedding = Some [5, 12], row_created_at = ''2''\<rparr>,
         \<lparr>row_id = ''r3'', row_type = ''correction'', row_content = ''r'',
          row_embedding = Some [12, 5], row_created_at = ''1''\<rparr>]
        (7 / 10) 2
      = [(\<lparr>row_id = ''r3'', row_type = ''correction'', row_content = ''r'',
            row_embedding = Some [12, 5], row_created_at = ''1''\<rparr>, 12 / 13),
         (\<lparr>row_id = ''r1'', row_type = ''pattern'', row_content = ''p'',
            row_embedding = Some [4, 3], row_created_at = ''3''\<rparr>, 4 / 5)]"
  using scored_filter_sort_truncate [of 2 "7 / 10" "[1, 0]"
        "[\<lparr>row_id = ''r1'', row_type = ''pattern'', row_content = ''p'',
          row_embedding = Some [4, 3], row_created_at = ''3''\<rparr>,
         \<lparr>row_id = ''r2'', row_type = ''pattern'', row_content = ''q'',
          row_embedding = Some [5, 12], row_created_at = ''2''\<rparr>,
         \<lparr>row_id = ''r3'', row_type = ''correction'', row_content = ''r'',
          row_embedding = Some [12, 5], row_created_at = ''1''\<rparr>]"]
  by (simp add: scored_def slice0_def cos_examples)

subsection \<open>Codec: the prose fallback\<close>

lemma scan_files_decomp:
  "(p, body) \<in> set (scan_files s) \<Longrightarrow>
     \<exists>u w. s = u @ file_open @ p @ [dquote, CHR ''>''] @ body @ file_close @ w
           \<and> p \<noteq> [] \<and> dquote \<notin> set p"
proof (induction s rule: scan_files.induct)
  case 1
  then show ?case by simp
next
  case (2 c cs)
  show ?case
  proof (cases "match_file_at (c # cs)")
    case None
    with "2.prems" have "(p, body) \<in> set (scan_files cs)" by simp
    with "2.IH"(1) [OF None] obtain u w where
      "cs = u @ file_open @ p @ [dquote, CHR ''>''] @ body @ file_close @ w"
      and ok: "p \<noteq> []" "dquote \<notin> set p" by blast
    then have "c # cs = (c # u) @ file_open @ p @ [dquote, CHR ''>''] @ body @ file_close @ w"
      by simp
    with ok show ?thesis by blast
  next
    case (Some m)
    obtain p' body' rest where m: "m = (p', body', rest)" by (cases m) auto
    note d = match_file_at_decomp [OF Some [unfolded m]]
    from "2.prems" Some m consider "(p, body) = (p', body')" | "(p, body) \<in> set (scan_files rest)"
      by auto
    then show ?thesis
    proof cases
      case 1
      with d have "c # cs = [] @ file_open @ p @ [dquote, CHR ''>''] @ body @ file_close @ rest"
        and "p \<noteq> []" and "dquote \<notin> set p" by simp_all
      then show ?thesis by blast
    next
      case 2
      with "2.IH"(2) [OF Some [unfolded m] refl refl] obtain u w where
        r: "rest = u @ file_open @ p @ [dquote, CHR ''>''] @ body @ file_close @ w"
        and ok: "p \<noteq> []" "dquote \<notin> set p" by blast
      from d(1) r have "c # cs = (file_open @ p' @ [dquote, CHR ''>''] @ body' @ file_close @ u)
                          @ file_open @ p @ [dquote, CHR ''>''] @ body @ file_close @ w"
        by simp
      with ok show ?thesis by blast
    qed
  qed
qed

lemma scan_files_empty:
  assumes "\<not> (\<exists>u p body w. raw = u @ file_open @ p @ [dquote, CHR ''>''] @ body @ file_close @ w
                \<and> p \<noteq> [] \<and> dquote \<notin> set p)"
  shows "scan_files raw = []"
proof (rule ccontr)
  assume "scan_files raw \<noteq> []"
  then obtain p body where "(p, body) \<in> set (scan_files raw)"
    by (cases "scan_files raw") auto
  from scan_files_decomp [OF this] assms show False by blast
qed

lemma tag_body_absent:
  assumes "\<not> (\<exists>u body w. raw = u @ (''<'' @ tag @ ''>'') @ body @ (''</'' @ tag @ ''>'') @ w)"
  shows "tag_body tag raw = []"
proof (rule ccontr)
  assume ne: "tag_body tag raw \<noteq> []"
  then obtain u v where f1: "find_sub (''<'' @ tag @ ''>'') raw = Some (u, v)"
    by (auto simp: tag_body_def split: option.splits)
  with ne obtain body w where f2: "find_sub (''</'' @ tag @ ''>'') v = Some (body, w)"
    by (auto simp: tag_body_def split: option.splits)
  from find_sub_decomp [OF f1] find_sub_decomp [OF f2]
  have "raw = u @ (''<'' @ tag @ ''>'') @ body @ (''</'' @ tag @ ''>'') @ w" by simp
  with assms show False by blast
qed

lemma trim_Nil: "trim [] = []"
  by (simp add: trim_def)

text \<open>
  The first opening tag is found where no earlier occurrence of it ends, and the body
  runs up to the first closing tag after it.
\<close>

lemma find_sub_first:
  assumes pat: "pat \<noteq> []"
  shows "\<not> str_includes (u @ butlast pat) pat \<Longrightarrow> find_sub pat (u @ pat @ v) = Some (u, v)"
proof (induction u)
  case Nil
  from pat obtain p ps where "pat = p # ps" by (cases pat) auto
  then show ?case by simp
next
  case (Cons c u)
  let ?X = "c # u @ butlast pat"
  from Cons.prems have np: "\<not> prefix pat ?X" and ni: "\<not> str_includes (u @ butlast pat) pat"
    by simp_all
  have split: "c # u @ pat @ v = ?X @ (last pat # v)"
    using pat by (simp add: append_butlast_last_id [symmetric] del: append_butlast_last_id)
  have "\<not> prefix pat (c # u @ pat @ v)"
  proof
    assume "prefix pat (c # u @ pat @ v)"
    then have "prefix pat (?X @ (last pat # v))" by (simp only: split)
    then have "prefix pat ?X \<or> (\<exists>us. pat = ?X @ us \<and> prefix us (last pat # v))"
      by (simp only: prefix_append)
    then consider "prefix pat ?X" | us where "pat = ?X @ us"
      by blast
    then show False
    proof cases
      case 1
      with np show False by contradiction
    next
      case 2
      then have "length pat = length ?X + length us" by (metis length_append)
      with pat have "us = []" by (cases pat rule: rev_cases) auto
      with 2 have "prefix pat ?X" by simp
      with np show False by contradiction
    qed
  qed
  moreover from Cons.IH ni have "find_sub pat (u @ pat @ v) = Some (u, v)" by blast
  ultimately show ?case by simp
qed

lemma tag_body_present:
  assumes "raw = u @ (''<'' @ tag @ ''>'') @ body @ (''</'' @ tag @ ''>'') @ w"
    and "\<not> (\<exists>a b. u @ (''<'' @ tag) = a @ (''<'' @ tag @ ''>'') @ b)"
    and "\<not> (\<exists>a b. body @ (''</'' @ tag) = a @ (''</'' @ tag @ ''>'') @ b)"
  shows "tag_body tag raw = body"
proof -
  have b1: "butlast (''<'' @ tag @ ''>'') = ''<'' @ tag"
    by (simp add: butlast_append)
  have b2: "butlast (''</'' @ tag @ ''>'') = ''</'' @ tag"
    by (simp add: butlast_append)
  from assms(2) have "\<not> str_includes (u @ butlast (''<'' @ tag @ ''>'')) (''<'' @ tag @ ''>'')"
    unfolding b1 str_includes_iff by simp
  then have f1: "find_sub (''<'' @ tag @ ''>'') raw = Some (u, body @ (''</'' @ tag @ ''>'') @ w)"
    unfolding assms(1) by (intro find_sub_first) simp_all
  from assms(3) have "\<not> str_includes (body @ butlast (''</'' @ tag @ ''>'')) (''</'' @ tag @ ''>'')"
    unfolding b2 str_includes_iff by simp
  then have f2: "find_sub (''</'' @ tag @ ''>'') (body @ (''</'' @ tag @ ''>'') @ w) = Some (body, w)"
    by (intro find_sub_first) simp_all
  from f1 f2 show ?thesis by (simp add: tag_body_def)
qed

text \<open>
  Claim C6. For every raw model text whose trimmed form is not empty and that contains
  no well-formed file block (an opening tag with a non-empty path free of double quotes,
  a body and a closing tag), parsing yields exactly one file, at the fixed path
  \<open>src/App.jsx\<close>, whose content is the whole trimmed raw text. The explanation and the
  tests are extracted each on its own, whatever the files are: the trimmed body between
  the first opening tag and the first closing tag after it when the block is present,
  and the empty string when it is absent; the parser is total.
\<close>

theorem parseOutputToJson_prose_fallback:
  "(trim raw \<noteq> []
      \<and> \<not> (\<exists>u p body w. raw = u @ file_open @ p @ [dquote, CHR ''>''] @ body @ file_close @ w
                \<and> p \<noteq> [] \<and> dquote \<notin> set p)
    \<longrightarrow> out_files (parseOutputToJson raw used)
          = [\<lparr>fo_path = ''src/App.jsx'', fo_content = trim raw, fo_diff = False,
              fo_modelUsed = used\<rparr>])
   \<and> (\<not> (\<exists>u body w. raw = u @ ''<explanation>'' @ body @ ''</explanation>'' @ w)
        \<longrightarrow> out_explanation (parseOutputToJson raw used) = [])
   \<and> (\<not> (\<exists>u body w. raw = u @ ''<tests>'' @ body @ ''</tests>'' @ w)
        \<longrightarrow> out_tests (parseOutputToJson raw used) = [])
   \<and> (raw = ue @ ''<explanation>'' @ be @ ''</explanation>'' @ we
        \<and> \<not> (\<exists>a b. ue @ ''<explanation'' = a @ ''<explanation>'' @ b)
        \<and> \<not> (\<exists>a b. be @ ''</explanation'' = a @ ''</explanation>'' @ b)
        \<longrightarrow> out_explanation (parseOutputToJson raw used) = trim be)
   \<and> (raw = ut @ ''<tests>'' @ bt @ ''</tests>'' @ wt
        \<and> \<not> (\<exists>a b. ut @ ''<tests'' = a @ ''<tests>'' @ b)
        \<and> \<not> (\<exists>a b. bt @ ''</tests'' = a @ ''</tests>'' @ b)
        \<longrightarrow> out_tests (parseOutputToJson raw used) = trim bt)"
proof (intro conjI impI)
  assume "trim raw \<noteq> []
      \<and> \<not> (\<exists>u p body w. raw = u @ file_open @ p @ [dquote, CHR ''>''] @ body @ file_close @ w
                \<and> p \<noteq> [] \<and> dquote \<notin> set p)"
  then have "trim raw \<noteq> []" and "scan_files raw = []"
    by (simp_all add: scan_files_empty)
  then show "out_files (parseOutputToJson raw used)
          = [\<lparr>fo_path = ''src/App.jsx'', fo_content = trim raw, fo_diff = False,
              fo_modelUsed = used\<rparr>]"
    by (simp add: parseOutputToJson_def)
next
  assume "\<not> (\<exists>u body w. raw = u @ ''<explanation>'' @ body @ ''</explanation>'' @ w)"
  then have "tag_body ''explanation'' raw = []"
    using tag_body_absent [of raw "''explanation''"] by simp
  then show "out_explanation (parseOutputToJson raw used) = []"
    by (simp add: parseOutputToJson_def Let_def trim_Nil)
next
  assume "\<not> (\<exists>u body w. raw = u @ ''<tests>'' @ body @ ''</tests>'' @ w)"
  then have "tag_body ''tests'' raw = []"
    using tag_body_absent [of raw "''tests''"] by simp
  then show "out_tests (parseOutputToJson raw used) = []"
    by (simp add: parseOutputToJson_def Let_def trim_Nil)
next
  assume "raw = ue @ ''<explanation>'' @ be @ ''</explanation>'' @ we
        \<and> \<not> (\<exists>a b. ue @ ''<explanation'' = a @ ''<explanation>'' @ b)
        \<and> \<not> (\<exists>a b. be @ ''</explanation'' = a @ ''</explanation>'' @ b)"
  then have "tag_body ''explanation'' raw = be"
    using tag_body_present [of raw ue "''explanation''" be we] by simp
  then show "out_explanation (parseOutputToJson raw used) = trim be"
    by (simp add: parseOutputToJson_def Let_def)
next
  assume "raw = ut @ ''<tests>'' @ bt @ ''</tests>'' @ wt
        \<and> \<not> (\<exists>a b. ut @ ''<tests'' = a @ ''<tests>'' @ b)
        \<and> \<not> (\<exists>a b. bt @ ''</tests'' = a @ ''</tests>'' @ b)"
  then have "tag_body ''tests'' raw = bt"
    using tag_body_present [of raw ut "''tests''" bt wt] by simp
  then show "out_tests (parseOutputToJson raw used) = trim bt"
    by (simp add: parseOutputToJson_def Let_def)
qed

lemma trim_example:
  "trim '' Hi there.\<newline>'' = ''Hi there.''"
  "trim ''Done. <explanation> E </explanation><tests>T</tests>''
     = ''Done. <explanation> E </explanation><tests>T</tests>''"
  "trim '' E '' = ''E''"
  "trim ''T'' = ''T''"
  by (simp_all add: trim_def is_ws_def)

theorem parseOutputToJson_prose_fallback_witness:
  "out_files (parseOutputToJson '' Hi there.\<newline>'' Grok)
        = [\<lparr>fo_path = ''src/App.jsx'', fo_content = ''Hi there.'', fo_diff = False,
            fo_modelUsed = Grok\<rparr>]
   \<and> out_explanation (parseOutputToJson '' Hi there.\<newline>'' Grok) = []
   \<and> out_tests (parseOutputToJson '' Hi there.\<newline>'' Grok) = []
   \<and> out_files (parseOutputToJson ''Done. <explanation> E </explanation><tests>T</tests>'' Claude)
        = [\<lparr>fo_path = ''src/App.jsx'',
            fo_content = ''Done. <explanation> E </explanation><tests>T</tests>'',
            fo_diff = False, fo_modelUsed = Claude\<rparr>]
   \<and> out_explanation
         (parseOutputToJson ''Done. <explanation> E </explanation><tests>T</tests>'' Claude) = ''E''
   \<and> out_tests
         (parseOutputToJson ''Done. <explanation> E </explanation><tests>T</tests>'' Claude) = ''T''"
proof -
  let ?A = "'' Hi there.\<newline>''"
  let ?B = "''Done. <explanation> E </explanation><tests>T</tests>''"
  have noblock: "\<not> (\<exists>u p body w. raw = u @ file_open @ p @ [dquote, CHR ''>''] @ body @ file_close @ w
                \<and> p \<noteq> [] \<and> dquote \<notin> set p)" if "dquote \<notin> set raw" for raw
  proof
    assume "\<exists>u p body w. raw = u @ file_open @ p @ [dquote, CHR ''>''] @ body @ file_close @ w
                \<and> p \<noteq> [] \<and> dquote \<notin> set p"
    then obtain u p body w where
      "raw = u @ file_open @ p @ [dquote, CHR ''>''] @ body @ file_close @ w" by blast
    then have "dquote \<in> set raw" by simp
    with that show False by contradiction
  qed
  have fA: "\<not> (\<exists>u p body w. ?A = u @ file_open @ p @ [dquote, CHR ''>''] @ body @ file_close @ w
                \<and> p \<noteq> [] \<and> dquote \<notin> set p)"
    by (rule noblock) (simp add: dquote_def)
  have fB: "\<not> (\<exists>u p body w. ?B = u @ file_open @ p @ [dquote, CHR ''>''] @ body @ file_close @ w
                \<and> p \<noteq> [] \<and> dquote \<notin> set p)"
    by (rule noblock) (simp add: dquote_def)
  have eA: "\<not> (\<exists>u body w. ?A = u @ ''<explanation>'' @ body @ ''</explanation>'' @ w)"
  proof
    assume "\<exists>u body w. ?A = u @ ''<explanation>'' @ body @ ''</explanation>'' @ w"
    then obtain u body w where
      "?A = u @ ''<explanation>'' @ body @ ''</explanation>'' @ w" by blast
    then have "length ?A = length (u @ ''<explanation>'' @ body @ ''</explanation>'' @ w)"
      by (rule arg_cong)
    then show False by simp
  qed
  have tA: "\<not> (\<exists>u body w. ?A = u @ ''<tests>'' @ body @ ''</tests>'' @ w)"
  proof
    assume "\<exists>u body w. ?A = u @ ''<tests>'' @ body @ ''</tests>'' @ w"
    then obtain u body w where "?A = u @ ''<tests>'' @ body @ ''</tests>'' @ w" by blast
    then have "length ?A = length (u @ ''<tests>'' @ body @ ''</tests>'' @ w)"
      by (rule arg_cong)
    then show False by simp
  qed
  have nA: "trim ?A \<noteq> []" and nB: "trim ?B \<noteq> []"
    by (simp_all add: trim_example)
  have e1: "?B = ''Done. '' @ ''<explanation>'' @ '' E '' @ ''</explanation>'' @ ''<tests>T</tests>''"
    by simp
  have e2: "\<not> (\<exists>a b. ''Done. '' @ ''<explanation'' = a @ ''<explanation>'' @ b)"
    unfolding str_includes_iff [symmetric] by simp
  have e3: "\<not> (\<exists>a b. '' E '' @ ''</explanation'' = a @ ''</explanation>'' @ b)"
    unfolding str_includes_iff [symmetric] by simp
  have t1: "?B = ''Done. <explanation> E </explanation>'' @ ''<tests>'' @ ''T'' @ ''</tests>'' @ []"
    by simp
  have t2: "\<not> (\<exists>a b. ''Done. <explanation> E </explanation>'' @ ''<tests'' = a @ ''<tests>'' @ b)"
    unfolding str_includes_iff [symmetric] by simp
  have t3: "\<not> (\<exists>a b. ''T'' @ ''</tests'' = a @ ''</tests>'' @ b)"
    unfolding str_includes_iff [symmetric] by simp
  note A = parseOutputToJson_prose_fallback [where raw = ?A and used = Grok]
  note B = parseOutputToJson_prose_fallback
             [where raw = ?B and used = Claude
                and ue = "''Done. ''" and be = "'' E ''" and we = "''<tests>T</tests>''"
                and ut = "''Done. <explanation> E </explanation>''" and bt = "''T''" and wt = "[]"]
  from A fA eA tA nA
  have "out_files (parseOutputToJson ?A Grok)
          = [\<lparr>fo_path = ''src/App.jsx'', fo_content = trim ?A, fo_diff = False,
              fo_modelUsed = Grok\<rparr>]"
    and "out_explanation (parseOutputToJson ?A Grok) = []"
    and "out_tests (parseOutputToJson ?A Grok) = []"
    by blast+
  moreover from B fB nB e1 e2 e3 t1 t2 t3
  have "out_files (parseOutputToJson ?B Claude)
          = [\<lparr>fo_path = ''src/App.jsx'', fo_content = trim ?B, fo_diff = False,
              fo_modelUsed = Claude\<rparr>]"
    and "out_explanation (parseOutputToJson ?B Claude) = trim '' E ''"
    and "out_tests (parseOutputToJson ?B Claude) = trim ''T''"
    by blast+
  ultimately show ?thesis by (simp only: trim_example) 
qed

subsection \<open>Chained routing: fallback to the fast result\<close>

lemma trim_empty_iff: "trim s = [] \<longleftrightarrow> (\<forall>c \<in> set s. is_ws c)"
proof -
  have "trim s = [] \<longleftrightarrow> (\<forall>c \<in> set (dropWhile is_ws s). is_ws c)"
    by (simp add: trim_def dropWhile_eq_Nil_conv)
  also have "\<dots> \<longleftrightarrow> dropWhile is_ws s = []"
  proof
    assume all: "\<forall>c \<in> set (dropWhile is_ws s). is_ws c"
    show "dropWhile is_ws s = []"
    proof (rule ccontr)
      assume ne: "dropWhile is_ws s \<noteq> []"
      then have "\<not> is_ws (hd (dropWhile is_ws s))" by (rule hd_dropWhile)
      moreover from ne have "hd (dropWhile is_ws s) \<in> set (dropWhile is_ws s)" by simp
      ultimately show False using all by blast
    qed
  next
    assume "dropWhile is_ws s = []"
    then show "\<forall>c \<in> set (dropWhile is_ws s). is_ws c"
      by (auto dest: set_dropWhileD)
  qed
  also have "\<dots> \<longleftrightarrow> (\<forall>c \<in> set s. is_ws c)"
    by (rule dropWhile_eq_Nil_conv)
  finally show ?thesis .
qed

lemma scan_files_blank:
  assumes "trim raw = []"
  shows "scan_files raw = []"
proof (rule ccontr)
  assume "scan_files raw \<noteq> []"
  then obtain p body where "(p, body) \<in> set (scan_files raw)"
    by (cases "scan_files raw") auto
  from scan_files_decomp [OF this] obtain u w where
    "raw = u @ file_open @ p @ [dquote, CHR ''>''] @ body @ file_close @ w" by blast
  then have "CHR ''<'' \<in> set raw" by (simp add: file_open_def)
  with assms have "is_ws CHR ''<''" by (simp add: trim_empty_iff)
  then show False by (simp add: is_ws_def)
qed

lemma parse_no_files_iff:
  "out_files (parseOutputToJson raw used) = [] \<longleftrightarrow> trim raw = []"
proof
  assume "out_files (parseOutputToJson raw used) = []"
  then show "trim raw = []"
    by (simp add: parseOutputToJson_def Let_def split: if_splits)
next
  assume "trim raw = []"
  then show "out_files (parseOutputToJson raw used) = []"
    by (simp add: parseOutputToJson_def Let_def scan_files_blank)
qed

lemma annotate_empty_iff: "annotate baseFiles fs = [] \<longleftrightarrow> fs = []"
  by (cases baseFiles) (simp_all add: annotate_def)

lemma scan_files_match:
  "match_file_at s = Some (p, body, rest) \<Longrightarrow> scan_files s = (p, body) # scan_files rest"
  by (cases s) (simp_all add: match_file_at_def file_open_def)

lemma match_example:
  \<open>match_file_at ''<file path="a.jsx">X</file>'' = Some (''a.jsx'', ''X'', [])\<close>
  by (simp add: match_file_at_def file_open_def file_close_def dquote_def)

lemma scan_example:
  \<open>scan_files ''<file path="a.jsx">X</file>'' = [(''a.jsx'', ''X'')]\<close>
  using scan_files_match [OF match_example] by simp

lemma scan_sorry: "scan_files ''sorry'' = []"
  by (simp add: match_file_at_def file_open_def)

lemma trim_examples: "trim ''X'' = ''X''" "trim ''sorry'' = ''sorry''" "trim [] = []"
  by (simp_all add: trim_def is_ws_def)

lemma tag_body_examples:
  \<open>tag_body ''explanation'' ''<file path="a.jsx">X</file>'' = []\<close>
  \<open>tag_body ''tests'' ''<file path="a.jsx">X</file>'' = []\<close>
  "tag_body ''explanation'' ''sorry'' = []"
  "tag_body ''tests'' ''sorry'' = []"
  by (simp_all add: tag_body_def)

lemma parse_example:
  \<open>parseOutputToJson ''<file path="a.jsx">X</file>'' Grok
     = \<lparr>out_files = [\<lparr>fo_path = ''a.jsx'', fo_content = ''X'', fo_diff = False,
                       fo_modelUsed = Grok\<rparr>],
        out_explanation = [], out_tests = []\<rparr>\<close>
  by (simp add: parseOutputToJson_def scan_example tag_body_examples trim_examples
        del: scan_files.simps)

lemma parse_sorry:
  "parseOutputToJson ''sorry'' Claude
     = \<lparr>out_files = [\<lparr>fo_path = ''src/App.jsx'', fo_content = ''sorry'', fo_diff = False,
                       fo_modelUsed = Claude\<rparr>],
        out_explanation = [], out_tests = []\<rparr>"
  by (simp add: parseOutputToJson_def scan_sorry tag_body_examples trim_examples
        del: scan_files.simps)

text \<open>
  A refine output that parses to zero files is exactly an empty or white-space output,
  and then the chained route returns what the fast-only route returns; a fast output
  with a file never leaves the chained result without files.
\<close>

lemma chained_fallback_blank:
  "(out_files (parseOutputToJson finalText Claude) = [] \<longleftrightarrow> trim finalText = [])
   \<and> (out_files (parseOutputToJson finalText Claude) = [] \<longrightarrow>
        generate R_dual (Some grokText) (Some finalText) baseFiles
          = generate R_grok (Some grokText) claudeReply baseFiles)
   \<and> (out_files (parseOutputToJson grokText Grok) \<noteq> [] \<longrightarrow>
        (\<exists>resp. generate R_dual (Some grokText) (Some finalText) baseFiles = Inr resp
                \<and> out_files resp \<noteq> []))"
proof (intro conjI impI)
  show "out_files (parseOutputToJson finalText Claude) = [] \<longleftrightarrow> trim finalText = []"
    by (rule parse_no_files_iff)
next
  assume "out_files (parseOutputToJson finalText Claude) = []"
  then show "generate R_dual (Some grokText) (Some finalText) baseFiles
               = generate R_grok (Some grokText) claudeReply baseFiles"
    by (simp add: generate_def Let_def)
next
  assume usable: "out_files (parseOutputToJson grokText Grok) \<noteq> []"
  show "\<exists>resp. generate R_dual (Some grokText) (Some finalText) baseFiles = Inr resp
                \<and> out_files resp \<noteq> []"
  proof (cases "out_files (parseOutputToJson finalText Claude) = []")
    case True
    with usable show ?thesis
      by (simp add: generate_def Let_def respond_def annotate_empty_iff)
  next
    case False
    then show ?thesis
      by (simp add: generate_def Let_def respond_def annotate_empty_iff)
  qed
qed

lemma parseOutput_example:
  \<open>parseOutput ''<file path="a.jsx">X</file>'' Grok
     = \<lparr>io_files = [\<lparr>if_path = ''a.jsx'', if_content = ''X''\<rparr>],
        io_explanation = [], io_tests = []\<rparr>\<close>
  by (simp add: parseOutput_def scan_example tag_body_examples trim_examples
        del: scan_files.simps)

lemma parseOutput_sorry:
  "parseOutput ''sorry'' Claude = \<lparr>io_files = [], io_explanation = [], io_tests = []\<rparr>"
  by (simp add: parseOutput_def scan_sorry tag_body_examples trim_examples
        del: scan_files.simps)

text \<open>
  Claim C2. The claim: in chained (dual) routing, whenever the refine model's raw output
  yields zero file blocks (it is empty or unparsable), the files, explanation and tests
  that the orchestrator returns are the fast model's solo parsed result. The handler of
  the gen route does not do so for a refine output in prose: with the fast reply
  \<open><file path="a.jsx">X</file>\<close> and the refine reply \<open>sorry\<close>, which has no file
  block, it returns the single file \<open>src/App.jsx\<close> holding \<open>sorry\<close>, not the fast
  result. The chained generator of the integrate route, on the same two replies,
  returns the fast result.
\<close>

theorem chained_prose_refine_reply_returned:
  \<open>scan_files ''sorry'' = []
   \<and> generate R_dual (Some ''<file path="a.jsx">X</file>'') (Some ''sorry'') None
       = Inr \<lparr>out_files = [\<lparr>fo_path = ''src/App.jsx'', fo_content = ''sorry'', fo_diff = False,
                             fo_modelUsed = Claude\<rparr>],
              out_explanation = [], out_tests = []\<rparr>
   \<and> generate R_grok (Some ''<file path="a.jsx">X</file>'') None None
       = Inr \<lparr>out_files = [\<lparr>fo_path = ''a.jsx'', fo_content = ''X'', fo_diff = False,
                             fo_modelUsed = Grok\<rparr>],
              out_explanation = [], out_tests = []\<rparr>
   \<and> generate R_dual (Some ''<file path="a.jsx">X</file>'') (Some ''sorry'') None
       \<noteq> generate R_grok (Some ''<file path="a.jsx">X</file>'') None None
   \<and> snd (dualRouterGenerate \<lparr>cm_apiCalls = 0, cm_limit = 1000\<rparr>
              (Some ''<file path="a.jsx">X</file>'') (Some ''sorry''))
       = Inr \<lparr>io_files = [\<lparr>if_path = ''a.jsx'', if_content = ''X''\<rparr>],
              io_explanation = [], io_tests = []\<rparr>\<close>
  by (simp add: generate_def respond_def annotate_def parse_example parse_sorry scan_sorry
        dualRouterGenerate_def trackCall_def checkLimit_def parseOutput_example
        parseOutput_sorry
        del: scan_files.simps)

end
